theory Spec2Isabelle
  imports Main "HOL-Library.Word"
begin

section \<open>Coverage signals\<close>

text \<open>
  A coverage event is a 64-bit program counter (the source compares the keys of a signal
  with 64-bit address literals); a priority tag is the \<open>uint8\<close> that
  \<open>addRawMaxSignal\<close> receives.
\<close>

type_synonym elemType = "64 word"
type_synonym prioType = "8 word"

text \<open>
  Modelled from the spec: the type \<open>signal.Signal\<close> is declared in the package
  \<open>pkg/signal\<close>, which is not among the source files. The spec describes a signal as a
  set of coverage-event identifiers, each tagged with the priority of the observation that
  produced it: a map from events to priorities. The source ranges over the keys of a signal
  and takes its \<open>len\<close>.
\<close>

type_synonym Signal = "elemType \<rightharpoonup> prioType"

text \<open>\<open>len(signal)\<close>: the number of keys of the map.\<close>

definition Len :: "Signal \<Rightarrow> nat" where
  "Len s = card (dom s)"

text \<open>
  Modelled from the spec: the method \<open>Empty\<close> of \<open>pkg/signal\<close> is missing; the spec
  calls it the emptiness test of the signal.
\<close>

definition Empty :: "Signal \<Rightarrow> bool" where
  "Empty s = (dom s = {})"

text \<open>
  Modelled from the spec: the method \<open>Merge\<close> of \<open>pkg/signal\<close> is missing; the spec
  calls it the union of two signals, idempotent and commutative, so an event recorded in
  both keeps the higher priority.
\<close>

definition Merge :: "Signal \<Rightarrow> Signal \<Rightarrow> Signal" where
  "Merge s s1 = (\<lambda>e. case s1 e of
       None \<Rightarrow> s e
     | Some p1 \<Rightarrow> (case s e of
           None \<Rightarrow> Some p1
         | Some p \<Rightarrow> if p < p1 then Some p1 else Some p))"

text \<open>
  Modelled from the spec: the method \<open>DiffRaw\<close> of \<open>pkg/signal\<close> is missing; the spec
  says it produces the events of the raw trace that the signal does not hold already,
  respecting the priority tag: an event held at a lower priority than the tag is produced
  again. The events produced carry the tag, and the signal diffed against is not changed.
\<close>

fun DiffRaw_loop :: "Signal \<Rightarrow> elemType list \<Rightarrow> prioType \<Rightarrow> Signal \<Rightarrow> Signal" where
  "DiffRaw_loop s [] prio res = res"
| "DiffRaw_loop s (e # raw) prio res =
     (case s e of
        Some p \<Rightarrow> if prio \<le> p then DiffRaw_loop s raw prio res
                  else DiffRaw_loop s raw prio (res(e \<mapsto> prio))
      | None \<Rightarrow> DiffRaw_loop s raw prio (res(e \<mapsto> prio)))"

definition DiffRaw :: "Signal \<Rightarrow> elemType list \<Rightarrow> prioType \<Rightarrow> Signal" where
  "DiffRaw s raw prio = DiffRaw_loop s raw prio Map.empty"

section \<open>The corpus scheduler, revision with the protected subset\<close>

text \<open>
  The source holds two revisions of the scheduler. This one (the second \<open>ProgramsList\<close>)
  keeps the protected subset \<open>ioUringProgs\<close>. A program is an opaque reference \<open>'p\<close>;
  the \<open>nil\<close> that \<open>ChooseProgram\<close> returns is \<open>None\<close>. The \<open>int64\<close> fields are
  64-bit words read as two's complement.
\<close>

record 'p ProgramsList =
  progs :: "'p list"
  ioUringProgs :: "'p list"
  sumPrios :: "64 word"
  accPrios :: "64 word list"

definition ProgramsList_zero :: "'p ProgramsList" where
  "ProgramsList_zero = \<lparr>progs = [], ioUringProgs = [], sumPrios = 0, accPrios = []\<rparr>"

definition io_uring_flag :: "Signal \<Rightarrow> bool" where
  "io_uring_flag signal =
     (\<exists>cover \<in> dom signal. 0xffffffff81ba06ed \<le> cover \<and> cover \<le> 0xffffffff81bd1636)"

definition saveProgram :: "'p ProgramsList \<Rightarrow> 'p \<Rightarrow> Signal \<Rightarrow> 'p ProgramsList" where
  "saveProgram pl p signal =
     (let prio = (of_nat (Len signal) :: 64 word);
          prio = (if prio = 0 then 1 else prio);
          sum = sumPrios pl + prio
      in pl\<lparr>sumPrios := sum,
             accPrios := accPrios pl @ [sum],
             progs := progs pl @ [p],
             ioUringProgs := (if io_uring_flag signal then ioUringProgs pl @ [p]
                              else ioUringProgs pl)\<rparr>)"

definition replace :: "'p ProgramsList \<Rightarrow> 'p ProgramsList \<Rightarrow> 'p ProgramsList" where
  "replace pl other =
     pl\<lparr>sumPrios := sumPrios other, accPrios := accPrios other, progs := progs other\<rparr>"

subsection \<open>Random draws and binary search of the standard library\<close>

text \<open>
  \<open>ChooseProgram\<close> can panic in three places: \<open>Int63n\<close> and \<open>Intn\<close> panic on an
  argument that is not positive, and indexing a slice panics out of range.
\<close>

datatype panic = InvalidArgument | IndexOutOfRange

text \<open>
  \<open>Int63n n\<close> and \<open>Intn n\<close> of \<open>math/rand\<close> return a number in \<open>[0, n)\<close> taken from
  the generator, and panic when \<open>n \<le> 0\<close>. The generator's raw output is an argument of
  the model, reduced into the range; every number of the range is the outcome of some raw
  output. The argument of \<open>Intn\<close> is a length or the literal 100, so it is a \<open>nat\<close>.
\<close>

definition Int63n :: "64 word \<Rightarrow> 64 word \<Rightarrow> panic + 64 word" where
  "Int63n raw n = (if n \<le>s 0 then Inl InvalidArgument else Inr (raw mod n))"

definition Intn :: "nat \<Rightarrow> nat \<Rightarrow> panic + nat" where
  "Intn raw n = (if n = 0 then Inl InvalidArgument else Inr (raw mod n))"

text \<open>
  \<open>sort.Search n f\<close>: the loop \<open>for i < j\<close> over \<open>i, j := 0, n\<close> with the midpoint
  \<open>h\<close>; it calls \<open>f\<close> only at \<open>h < n\<close>.
\<close>

function Search_loop :: "(nat \<Rightarrow> bool) \<Rightarrow> nat \<Rightarrow> nat \<Rightarrow> nat" where
  "Search_loop f i j =
     (if i < j then
        (let h = (i + j) div 2
         in if \<not> f h then Search_loop f (h + 1) j else Search_loop f i h)
      else i)"
  by pat_completeness auto
termination
  by (relation "measure (\<lambda>(f, i, j). j - i)") auto

declare Search_loop.simps [simp del]

definition Search :: "nat \<Rightarrow> (nat \<Rightarrow> bool) \<Rightarrow> nat" where
  "Search n f = Search_loop f 0 n"

text \<open>Reading \<open>xs[i]\<close> of a slice of program references.\<close>

definition index :: "'p list \<Rightarrow> nat \<Rightarrow> panic + 'p option" where
  "index xs i = (if i < length xs then Inr (Some (xs ! i)) else Inl IndexOutOfRange)"

text \<open>
  \<open>ChooseProgram pl r c k\<close>: \<open>r\<close> is the raw output behind \<open>r.Int63n\<close>, \<open>c\<close> the one
  behind \<open>rand.Intn(100)\<close> and \<open>k\<close> the one behind \<open>rand.Intn(len(pl.ioUringProgs))\<close>.
\<close>

definition ChooseProgram ::
    "'p ProgramsList \<Rightarrow> 64 word \<Rightarrow> nat \<Rightarrow> nat \<Rightarrow> panic + 'p option" where
  "ChooseProgram pl r c k =
     (if length (progs pl) = 0 then Inr None
      else case Int63n r (sumPrios pl + 1) of
        Inl e \<Rightarrow> Inl e
      | Inr randVal \<Rightarrow>
          (let idx = Search (length (accPrios pl)) (\<lambda>i. randVal \<le>s accPrios pl ! i)
           in case Intn c 100 of
             Inl e \<Rightarrow> Inl e
           | Inr coin \<Rightarrow>
               if coin < 50 then
                 (if length (ioUringProgs pl) = 0 then index (progs pl) idx
                  else case Intn k (length (ioUringProgs pl)) of
                    Inl e \<Rightarrow> Inl e
                  | Inr j \<Rightarrow> index (ioUringProgs pl) j)
               else index (progs pl) idx))"

section \<open>The corpus scheduler, revision without the protected subset\<close>

text \<open>
  The first \<open>ProgramsList\<close> of the source has no \<open>ioUringProgs\<close>: a program whose signal
  reaches the io_uring region has its priority multiplied by 100000 instead. Its names
  carry the suffix \<open>_a\<close>.
\<close>

record 'p ProgramsList_a =
  progs_a :: "'p list"
  sumPrios_a :: "64 word"
  accPrios_a :: "64 word list"

definition ProgramsList_a_zero :: "'p ProgramsList_a" where
  "ProgramsList_a_zero = \<lparr>progs_a = [], sumPrios_a = 0, accPrios_a = []\<rparr>"

definition ChooseProgram_a :: "'p ProgramsList_a \<Rightarrow> 64 word \<Rightarrow> panic + 'p option" where
  "ChooseProgram_a pl r =
     (if length (progs_a pl) = 0 then Inr None
      else case Int63n r (sumPrios_a pl + 1) of
        Inl e \<Rightarrow> Inl e
      | Inr randVal \<Rightarrow>
          (let idx = Search (length (accPrios_a pl)) (\<lambda>i. randVal \<le>s accPrios_a pl ! i)
           in index (progs_a pl) idx))"

definition saveProgram_a :: "'p ProgramsList_a \<Rightarrow> 'p \<Rightarrow> Signal \<Rightarrow> 'p ProgramsList_a" where
  "saveProgram_a pl p signal =
     (let prio = (of_nat (Len signal) :: 64 word);
          prio = (if prio = 0 then 1 else prio);
          prio = (if io_uring_flag signal then prio * 100000 else prio);
          sum = sumPrios_a pl + prio
      in pl\<lparr>sumPrios_a := sum,
             accPrios_a := accPrios_a pl @ [sum],
             progs_a := progs_a pl @ [p]\<rparr>)"

definition replace_a :: "'p ProgramsList_a \<Rightarrow> 'p ProgramsList_a \<Rightarrow> 'p ProgramsList_a" where
  "replace_a pl other =
     pl\<lparr>sumPrios_a := sumPrios_a other, accPrios_a := accPrios_a other,
        progs_a := progs_a other\<rparr>"

section \<open>The coverage tracker\<close>

record Cover =
  maxSignal :: Signal
  newSignal :: Signal

definition newCover :: Cover where
  "newCover = \<lparr>maxSignal = Map.empty, newSignal = Map.empty\<rparr>"

definition AddMaxSignal :: "Cover \<Rightarrow> Signal \<Rightarrow> Cover" where
  "AddMaxSignal cover sign = cover\<lparr>maxSignal := Merge (maxSignal cover) sign\<rparr>"

fun filterFsSignal :: "64 word list \<Rightarrow> 64 word list" where
  "filterFsSignal [] = []"
| "filterFsSignal (cover # signal) =
     (if 0xffffffff81f7db10 \<le> cover \<and> cover \<le> 0xffffffff81fb3e69
      then cover # filterFsSignal signal
      else filterFsSignal signal)"

text \<open>The methods of the tracker return the signal and the tracker's new state.\<close>

definition addRawMaxSignal :: "Cover \<Rightarrow> 64 word list \<Rightarrow> 8 word \<Rightarrow> Signal \<times> Cover" where
  "addRawMaxSignal cover signal prio =
     (let fs_signal = filterFsSignal signal;
          diff = DiffRaw (maxSignal cover) fs_signal prio
      in if Empty diff then (diff, cover)
         else (diff, cover\<lparr>maxSignal := Merge (maxSignal cover) diff,
                          newSignal := Merge (newSignal cover) diff\<rparr>))"

definition GrabSignalDelta :: "Cover \<Rightarrow> Signal \<times> Cover" where
  "GrabSignalDelta cover = (newSignal cover, cover\<lparr>newSignal := Map.empty\<rparr>)"

subsection \<open>Runs of the tracker\<close>

text \<open>
  A run of the tracker is a list of calls, applied from left to right under the tracker's
  lock. \<open>ingest_all\<close> applies a list of \<open>addRawMaxSignal\<close> calls and collects the
  signals they return.
\<close>

datatype cover_op =
    OpAddMaxSignal Signal
  | OpAddRawMaxSignal "64 word list" "8 word"
  | OpGrabSignalDelta

fun step :: "Cover \<Rightarrow> cover_op \<Rightarrow> Cover" where
  "step cover (OpAddMaxSignal sign) = AddMaxSignal cover sign"
| "step cover (OpAddRawMaxSignal signal prio) = snd (addRawMaxSignal cover signal prio)"
| "step cover OpGrabSignalDelta = snd (GrabSignalDelta cover)"

fun ingest_all :: "Cover \<Rightarrow> (64 word list \<times> 8 word) list \<Rightarrow> Signal list \<times> Cover" where
  "ingest_all cover [] = ([], cover)"
| "ingest_all cover ((signal, prio) # calls) =
     (let (diff, cover') = addRawMaxSignal cover signal prio;
          (diffs, cover'') = ingest_all cover' calls
      in (diff # diffs, cover''))"

section \<open>Runs of the scheduler\<close>

text \<open>
  The words of the specification, to compare the code with: the weight of a program is
  \<open>max(1, |S|)\<close>, and the weighted choice returns the first index whose cumulative
  value is at least the draw.
\<close>

definition first_ge :: "64 word list \<Rightarrow> 64 word \<Rightarrow> nat" where
  "first_ge acc r = length (takeWhile (\<lambda>a. a <s r) acc)"

definition prio_of :: "Signal \<Rightarrow> nat" where
  "prio_of signal = max 1 (Len signal)"

definition prio_of_a :: "Signal \<Rightarrow> nat" where
  "prio_of_a signal = (if io_uring_flag signal then prio_of signal * 100000 else prio_of signal)"

text \<open>
  The states of the scheduler: the zero value of the struct, \<open>saveProgram\<close> on a state,
  and \<open>replace\<close> of a state by another one. A call of \<open>saveProgram\<close> is part of a run
  as long as the sum of the weights stays below \<open>2 ^ 63 - 1\<close>, so that neither
  \<open>sumPrios\<close> nor the \<open>sumPrios + 1\<close> of \<open>ChooseProgram\<close> wraps around in \<open>int64\<close>.
  In the first revision the weight includes the factor 100000.
\<close>

inductive reachable :: "'p ProgramsList \<Rightarrow> bool" where
  reachable_zero: "reachable ProgramsList_zero"
| reachable_save:
    "reachable pl \<Longrightarrow> sint (sumPrios pl) + int (prio_of signal) < 2 ^ 63 - 1
       \<Longrightarrow> reachable (saveProgram pl p signal)"
| reachable_replace: "reachable pl \<Longrightarrow> reachable other \<Longrightarrow> reachable (replace pl other)"

inductive reachable_a :: "'p ProgramsList_a \<Rightarrow> bool" where
  reachable_a_zero: "reachable_a ProgramsList_a_zero"
| reachable_a_save:
    "reachable_a pl \<Longrightarrow> sint (sumPrios_a pl) + int (prio_of_a signal) < 2 ^ 63 - 1
       \<Longrightarrow> reachable_a (saveProgram_a pl p signal)"
| reachable_a_replace:
    "reachable_a pl \<Longrightarrow> reachable_a other \<Longrightarrow> reachable_a (replace_a pl other)"

text \<open>
  The cumulative-sum invariant that the states keep: \<open>acc\<close> is non-decreasing and
  bounded by \<open>s\<close>, its last element is \<open>s\<close>, and \<open>s\<close> lies in \<open>[0, 2 ^ 63 - 1)\<close>.
\<close>

definition acc_inv :: "64 word list \<Rightarrow> 64 word \<Rightarrow> bool" where
  "acc_inv acc s =
     (sorted (map sint acc) \<and> (\<forall>a \<in> set acc. sint a \<le> sint s) \<and> 0 \<le> sint s
      \<and> sint s < 2 ^ 63 - 1 \<and> (if acc = [] then s = 0 else last acc = s))"

text \<open>A list of \<open>saveProgram\<close> calls, and the sum of the weights it adds.\<close>

definition admit_all :: "'p ProgramsList \<Rightarrow> ('p \<times> Signal) list \<Rightarrow> 'p ProgramsList" where
  "admit_all pl calls = foldl (\<lambda>pl (p, signal). saveProgram pl p signal) pl calls"

definition admit_all_a :: "'p ProgramsList_a \<Rightarrow> ('p \<times> Signal) list \<Rightarrow> 'p ProgramsList_a" where
  "admit_all_a pl calls = foldl (\<lambda>pl (p, signal). saveProgram_a pl p signal) pl calls"

definition total_prio :: "('p \<times> Signal) list \<Rightarrow> int" where
  "total_prio calls = sum_list (map (\<lambda>(p, signal). int (prio_of signal)) calls)"

definition total_prio_a :: "('p \<times> Signal) list \<Rightarrow> int" where
  "total_prio_a calls = sum_list (map (\<lambda>(p, signal). int (prio_of_a signal)) calls)"

section \<open>Properties of the coverage tracker\<close>

lemma dom_Merge: "dom (Merge s s1) = dom s \<union> dom s1"
  by (auto simp: Merge_def dom_def split: option.splits)

lemma Merge_Empty: "Empty d \<Longrightarrow> Merge s d = s"
  by (auto simp: Merge_def Empty_def fun_eq_iff split: option.splits)

lemma Merge_empty [simp]: "Merge s Map.empty = s"
  by (simp add: Merge_def)

lemma DiffRaw_loop_apply:
  "DiffRaw_loop s raw prio res e =
     (if e \<in> set raw \<and> (case s e of None \<Rightarrow> True | Some p \<Rightarrow> p < prio) then Some prio else res e)"
proof (induction raw arbitrary: res)
  case Nil
  show ?case by simp
next
  case (Cons a raw)
  show ?case
    by (cases "s a") (auto simp add: Cons.IH not_le)
qed

lemma DiffRaw_apply:
  "DiffRaw s raw prio e =
     (if e \<in> set raw \<and> (case s e of None \<Rightarrow> True | Some p \<Rightarrow> p < prio) then Some prio else None)"
  by (simp add: DiffRaw_def DiffRaw_loop_apply)

lemma set_filterFsSignal:
  "set (filterFsSignal signal) = {e \<in> set signal. 0xffffffff81f7db10 \<le> e \<and> e \<le> 0xffffffff81fb3e69}"
  by (induction signal) auto

lemma dom_DiffRaw:
  "dom (DiffRaw s raw prio) = {e \<in> set raw. case s e of None \<Rightarrow> True | Some p \<Rightarrow> p < prio}"
  by (auto simp: dom_def DiffRaw_apply)

lemma DiffRaw_after_Merge:
  "Empty (DiffRaw (Merge s (DiffRaw s raw prio)) raw prio)"
  by (auto simp: Empty_def dom_DiffRaw Merge_def DiffRaw_apply split: option.splits)

lemma addRawMaxSignal_fst:
  "fst (addRawMaxSignal cover signal prio) = DiffRaw (maxSignal cover) (filterFsSignal signal) prio"
  by (simp add: addRawMaxSignal_def Let_def)

lemma addRawMaxSignal_snd:
  "snd (addRawMaxSignal cover signal prio) =
     cover\<lparr>maxSignal := Merge (maxSignal cover) (fst (addRawMaxSignal cover signal prio)),
           newSignal := Merge (newSignal cover) (fst (addRawMaxSignal cover signal prio))\<rparr>"
  by (simp add: addRawMaxSignal_def Let_def Merge_Empty)

lemma Merge_restrict_outside:
  "dom d \<subseteq> R \<Longrightarrow> Merge s d |` (- R) = s |` (- R)"
  by (auto simp: Merge_def restrict_map_def fun_eq_iff split: option.splits)

lemma filterFsSignal_inside:
  "filterFsSignal (filter (\<lambda>e. e \<in> {0xffffffff81f7db10 .. 0xffffffff81fb3e69}) signal)
     = filterFsSignal signal"
  by (induction signal) auto

lemma filterFsSignal_outside:
  "filterFsSignal (filter (\<lambda>e. e \<notin> {0xffffffff81f7db10 .. 0xffffffff81fb3e69}) signal) = []"
  by (induction signal) auto

lemma dom_addRawMaxSignal:
  "dom (fst (addRawMaxSignal cover signal prio)) \<subseteq> {0xffffffff81f7db10 .. 0xffffffff81fb3e69}"
  by (auto simp: addRawMaxSignal_fst dom_DiffRaw set_filterFsSignal)

text \<open>
  Claim C3. The signal that \<open>addRawMaxSignal\<close> returns, which is also all it merges into
  \<open>maxSignal\<close> and \<open>newSignal\<close>, holds only events of the range
  \<open>0xffffffff81f7db10 .. 0xffffffff81fb3e69\<close>; outside that range both signals stay as
  they were; the events of the trace outside the range change neither the result nor the
  state, and a trace with no event inside the range returns the empty signal and leaves the
  tracker as it was. The function has no failing branch.
\<close>

theorem addRawMaxSignal_in_scope: 
  "dom (fst (addRawMaxSignal cover signal prio)) \<subseteq> {0xffffffff81f7db10 .. 0xffffffff81fb3e69}
   \<and> maxSignal (snd (addRawMaxSignal cover signal prio)) |` (- {0xffffffff81f7db10 .. 0xffffffff81fb3e69})
       = maxSignal cover |` (- {0xffffffff81f7db10 .. 0xffffffff81fb3e69})
   \<and> newSignal (snd (addRawMaxSignal cover signal prio)) |` (- {0xffffffff81f7db10 .. 0xffffffff81fb3e69})
       = newSignal cover |` (- {0xffffffff81f7db10 .. 0xffffffff81fb3e69})
   \<and> addRawMaxSignal cover signal prio
       = addRawMaxSignal cover (filter (\<lambda>e. e \<in> {0xffffffff81f7db10 .. 0xffffffff81fb3e69}) signal) prio
   \<and> addRawMaxSignal cover (filter (\<lambda>e. e \<notin> {0xffffffff81f7db10 .. 0xffffffff81fb3e69}) signal) prio
       = (Map.empty, cover)"
proof -
  let ?R = "{0xffffffff81f7db10 .. 0xffffffff81fb3e69} :: 64 word set"
  let ?d = "fst (addRawMaxSignal cover signal prio)"
  have d: "dom ?d \<subseteq> ?R"
    by (rule dom_addRawMaxSignal)
  have m: "maxSignal (snd (addRawMaxSignal cover signal prio)) |` (- ?R) = maxSignal cover |` (- ?R)"
    using Merge_restrict_outside [OF d] by (simp add: addRawMaxSignal_snd)
  have n: "newSignal (snd (addRawMaxSignal cover signal prio)) |` (- ?R) = newSignal cover |` (- ?R)"
    using Merge_restrict_outside [OF d] by (simp add: addRawMaxSignal_snd)
  have i: "addRawMaxSignal cover signal prio
       = addRawMaxSignal cover (filter (\<lambda>e. e \<in> ?R) signal) prio"
    by (simp only: addRawMaxSignal_def filterFsSignal_inside)
  have "addRawMaxSignal cover (filter (\<lambda>e. e \<notin> ?R) signal) prio
       = addRawMaxSignal cover [] prio"
    by (simp only: addRawMaxSignal_def filterFsSignal_outside filterFsSignal.simps)
  then have o: "addRawMaxSignal cover (filter (\<lambda>e. e \<notin> ?R) signal) prio = (Map.empty, cover)"
    by (simp add: addRawMaxSignal_def DiffRaw_def Empty_def)
  from d m n i o show ?thesis by blast
qed

text \<open>
  Claim C4, as amended. The second of two calls of \<open>addRawMaxSignal\<close> with the same
  trace and tag returns the empty signal. The first returns a signal that is not empty
  exactly when the trace has an event inside the range that \<open>maxSignal\<close> does not hold
  yet, or holds at a lower priority than the tag.
\<close>

theorem addRawMaxSignal_twice:
  "Empty (fst (addRawMaxSignal (snd (addRawMaxSignal cover signal prio)) signal prio))
   \<and> (\<not> Empty (fst (addRawMaxSignal cover signal prio))) =
       (\<exists>e \<in> set signal. 0xffffffff81f7db10 \<le> e \<and> e \<le> 0xffffffff81fb3e69
          \<and> (case maxSignal cover e of None \<Rightarrow> True | Some p \<Rightarrow> p < prio))"
proof -
  have "Empty (fst (addRawMaxSignal (snd (addRawMaxSignal cover signal prio)) signal prio))"
    by (simp add: addRawMaxSignal_fst addRawMaxSignal_snd DiffRaw_after_Merge)
  moreover have "(\<not> Empty (fst (addRawMaxSignal cover signal prio))) =
       (\<exists>e \<in> set signal. 0xffffffff81f7db10 \<le> e \<and> e \<le> 0xffffffff81fb3e69
          \<and> (case maxSignal cover e of None \<Rightarrow> True | Some p \<Rightarrow> p < prio))"
    by (auto simp: addRawMaxSignal_fst Empty_def dom_DiffRaw set_filterFsSignal)
  ultimately show ?thesis by blast
qed

text \<open>
  The first call can return the empty signal: on an empty trace, on a trace outside the
  range, and on a trace whose events are known already.
\<close>

theorem addRawMaxSignal_first_delta_empty:
  "Empty (fst (addRawMaxSignal newCover [] 0)) \<and> Empty (fst (addRawMaxSignal newCover [0x1000] 3))
  \<and> Empty (fst (addRawMaxSignal (AddMaxSignal newCover [0xffffffff81f7db10 \<mapsto> 3]) [0xffffffff81f7db10] 3))"
  by (simp add: addRawMaxSignal_fst DiffRaw_def Empty_def newCover_def AddMaxSignal_def Merge_def)

lemma ingest_all_newSignal:
  "newSignal (snd (ingest_all cover calls)) = foldl Merge (newSignal cover) (fst (ingest_all cover calls))"
proof (induction calls arbitrary: cover)
  case Nil
  show ?case by simp
next
  case (Cons c calls)
  obtain signal prio where c: "c = (signal, prio)" by (cases c)
  show ?case
    using Cons.IH [of "snd (addRawMaxSignal cover signal prio)"]
    by (simp add: c split_beta Let_def addRawMaxSignal_snd)
qed

lemma dom_foldl_Merge:
  "dom (foldl Merge s ds) = dom s \<union> \<Union> (dom ` set ds)"
  by (induction ds arbitrary: s) (auto simp: dom_Merge)

text \<open>
  Claim C5. After a drain, any list of \<open>addRawMaxSignal\<close> calls followed by
  \<open>GrabSignalDelta\<close>: the drained signal is the merge of the signals those calls
  returned, its events are the union of their events, and \<open>newSignal\<close> is empty after
  the drain.
\<close>

theorem GrabSignalDelta_partition:
  "fst (GrabSignalDelta (snd (ingest_all (snd (GrabSignalDelta cover)) calls)))
     = foldl Merge Map.empty (fst (ingest_all (snd (GrabSignalDelta cover)) calls))
   \<and> dom (fst (GrabSignalDelta (snd (ingest_all (snd (GrabSignalDelta cover)) calls))))
     = \<Union> (dom ` set (fst (ingest_all (snd (GrabSignalDelta cover)) calls)))
   \<and> newSignal (snd (GrabSignalDelta (snd (ingest_all (snd (GrabSignalDelta cover)) calls)))) = Map.empty"
proof -
  let ?c = "snd (GrabSignalDelta cover)"
  have e: "newSignal ?c = Map.empty" by (simp add: GrabSignalDelta_def)
  have 1: "fst (GrabSignalDelta (snd (ingest_all ?c calls))) = foldl Merge Map.empty (fst (ingest_all ?c calls))"
    using ingest_all_newSignal [of ?c calls] e by (simp add: GrabSignalDelta_def)
  have 2: "dom (fst (GrabSignalDelta (snd (ingest_all ?c calls)))) = \<Union> (dom ` set (fst (ingest_all ?c calls)))"
    unfolding 1 by (simp add: dom_foldl_Merge)
  have 3: "newSignal (snd (GrabSignalDelta (snd (ingest_all ?c calls)))) = Map.empty"
    by (simp add: GrabSignalDelta_def)
  from 1 2 3 show ?thesis by blast
qed

lemma step_inv:
  "dom (newSignal cover) \<subseteq> dom (maxSignal cover) \<Longrightarrow>
   dom (newSignal (step cover op)) \<subseteq> dom (maxSignal (step cover op))"
  by (cases op) (auto simp: AddMaxSignal_def addRawMaxSignal_snd GrabSignalDelta_def dom_Merge)

lemma run_inv:
  "dom (newSignal cover) \<subseteq> dom (maxSignal cover) \<Longrightarrow>
   dom (newSignal (foldl step cover ops)) \<subseteq> dom (maxSignal (foldl step cover ops))"
  by (induction ops arbitrary: cover) (simp_all add: step_inv)

text \<open>
  Claim C7. After any list of \<open>AddMaxSignal\<close>, \<open>addRawMaxSignal\<close> and
  \<open>GrabSignalDelta\<close> calls on a new tracker, every event of \<open>newSignal\<close> is an event
  of \<open>maxSignal\<close>.
\<close>

theorem newSignal_subset_maxSignal:
  "dom (newSignal (foldl step newCover ops)) \<subseteq> dom (maxSignal (foldl step newCover ops))"
  by (rule run_inv) (simp add: newCover_def)

section \<open>Properties of the scheduler\<close>

text \<open>
  \<open>sort.Search n f\<close> reads \<open>f\<close> only below \<open>n\<close>: the closure of \<open>ChooseProgram\<close>
  never indexes \<open>accPrios\<close> out of range.
\<close>

lemma Search_loop_cong:
  "(\<And>h. i \<le> h \<Longrightarrow> h < j \<Longrightarrow> f h = g h) \<Longrightarrow> Search_loop f i j = Search_loop g i j"
proof (induction f i j rule: Search_loop.induct)
  case (1 f i j)
  show ?case
  proof (cases "i < j")
    case False
    then show ?thesis by (simp add: Search_loop.simps [of _ i j])
  next
    case True
    let ?h = "(i + j) div 2"
    have h: "i \<le> ?h" "?h < j" using True by auto
    have fg: "f ?h = g ?h" using "1.prems" h by blast
    show ?thesis
    proof (cases "f ?h")
      case False
      have "Search_loop f (?h + 1) j = Search_loop g (?h + 1) j"
        using "1.IH"(1) [OF True refl False] "1.prems" h by simp
      then show ?thesis
        using True False fg by (simp add: Search_loop.simps [of _ i j] Let_def)
    next
      case fh: True
      have "Search_loop f i ?h = Search_loop g i ?h"
        using "1.IH"(2) [OF True refl] fh "1.prems" h by simp
      then show ?thesis
        using True fh fg by (simp add: Search_loop.simps [of _ i j] Let_def)
    qed
  qed
qed

lemma Search_cong: "(\<And>h. h < n \<Longrightarrow> f h = g h) \<Longrightarrow> Search n f = Search n g"
  unfolding Search_def by (rule Search_loop_cong) simp

text \<open>On a monotone \<open>f\<close> the loop returns the first index where \<open>f\<close> holds.\<close>

lemma Search_loop_spec:
  assumes "\<And>a b. i \<le> a \<Longrightarrow> a \<le> b \<Longrightarrow> b < j \<Longrightarrow> f a \<Longrightarrow> f b" "i \<le> j"
  shows "i \<le> Search_loop f i j \<and> Search_loop f i j \<le> j
     \<and> (\<forall>h. i \<le> h \<and> h < Search_loop f i j \<longrightarrow> \<not> f h)
     \<and> (\<forall>h. Search_loop f i j \<le> h \<and> h < j \<longrightarrow> f h)"
  using assms
proof (induction f i j rule: Search_loop.induct)
  case (1 f i j)
  show ?case
  proof (cases "i < j")
    case False
    then have "Search_loop f i j = i" by (subst Search_loop.simps) simp
    then show ?thesis using False "1.prems"(2) by auto
  next
    case True
    let ?h = "(i + j) div 2"
    have h: "i \<le> ?h" "?h < j" using True by auto
    show ?thesis
    proof (cases "f ?h")
      case False
      have eq: "Search_loop f i j = Search_loop f (?h + 1) j"
        using True False by (subst Search_loop.simps) (simp add: Let_def)
      have mono: "\<And>a b. ?h + 1 \<le> a \<Longrightarrow> a \<le> b \<Longrightarrow> b < j \<Longrightarrow> f a \<Longrightarrow> f b"
      proof -
        fix a b assume "?h + 1 \<le> a" "a \<le> b" "b < j" "f a"
        moreover from this h have "i \<le> a" by linarith
        ultimately show "f b" using "1.prems"(1) by blast
      qed
      have below: "\<And>x. i \<le> x \<Longrightarrow> x \<le> ?h \<Longrightarrow> \<not> f x"
        using "1.prems"(1) [OF _ _ h(2)] False by blast
      have IH: "?h + 1 \<le> Search_loop f (?h + 1) j \<and> Search_loop f (?h + 1) j \<le> j
     \<and> (\<forall>x. ?h + 1 \<le> x \<and> x < Search_loop f (?h + 1) j \<longrightarrow> \<not> f x)
     \<and> (\<forall>x. Search_loop f (?h + 1) j \<le> x \<and> x < j \<longrightarrow> f x)"
        using "1.IH"(1) [OF True refl False mono] h by simp
      have low: "\<not> f x" if "i \<le> x" "x < Search_loop f (?h + 1) j" for x
      proof (cases "x \<le> ?h")
        case True
        then show ?thesis using below that by blast
      next
        case False
        then have "?h + 1 \<le> x" by simp
        then show ?thesis using IH that by blast
      qed
      have "i \<le> Search_loop f (?h + 1) j" using IH h by linarith
      then show ?thesis unfolding eq using IH low by blast
    next
      case fh: True
      have eq: "Search_loop f i j = Search_loop f i ?h"
        using True fh by (subst Search_loop.simps) (simp add: Let_def)
      have mono: "\<And>a b. i \<le> a \<Longrightarrow> a \<le> b \<Longrightarrow> b < ?h \<Longrightarrow> f a \<Longrightarrow> f b"
      proof -
        fix a b assume "i \<le> a" "a \<le> b" "b < ?h" "f a"
        moreover from this h have "b < j" by linarith
        ultimately show "f b" using "1.prems"(1) by blast
      qed
      have above: "\<And>x. ?h \<le> x \<Longrightarrow> x < j \<Longrightarrow> f x"
        using "1.prems"(1) [OF h(1)] fh by blast
      have IH: "i \<le> Search_loop f i ?h \<and> Search_loop f i ?h \<le> ?h
     \<and> (\<forall>x. i \<le> x \<and> x < Search_loop f i ?h \<longrightarrow> \<not> f x)
     \<and> (\<forall>x. Search_loop f i ?h \<le> x \<and> x < ?h \<longrightarrow> f x)"
        using "1.IH"(2) [OF True refl _ mono] fh h by simp
      have high: "f x" if "Search_loop f i ?h \<le> x" "x < j" for x
      proof (cases "x < ?h")
        case True
        then show ?thesis using IH that by blast
      next
        case False
        then have "?h \<le> x" by simp
        then show ?thesis using above that by blast
      qed
      have "Search_loop f i ?h \<le> j" using IH h by linarith
      then show ?thesis unfolding eq using IH high by blast
    qed
  qed
qed

lemma int_less_2p63: "(int n < 2 ^ 63) = (n < 2 ^ 63)"
  using of_nat_less_iff [of n "2 ^ 63", where ?'a = int] by simp

lemma sint_of_nat_64: "n < 2 ^ 63 \<Longrightarrow> sint (of_nat n :: 64 word) = int n"
proof -
  assume "n < 2 ^ 63"
  then have "int n < 2 ^ 63" by (simp add: int_less_2p63)
  then show ?thesis
    by (simp add: signed_of_nat signed_take_bit_int_eq_self)
qed

lemma sint_add_64:
  "0 \<le> sint a \<Longrightarrow> 0 \<le> sint b \<Longrightarrow> sint a + sint b < 2 ^ 63 \<Longrightarrow> sint (a + b :: 64 word) = sint a + sint b"
  by (simp add: sint_word_ariths signed_take_bit_int_eq_self)

lemma uint_nonneg_sint: "0 \<le> sint (a :: 64 word) \<Longrightarrow> uint a = sint a"
  using sint_less [of a] by (simp add: uint_sint take_bit_int_eq_self)

lemma sint_small_uint: "uint (a :: 64 word) < 2 ^ 63 \<Longrightarrow> sint a = uint a"
proof -
  assume a: "uint a < 2 ^ 63"
  have "- (2 ^ 63) \<le> uint a" by (rule order_trans [of _ 0]) simp_all
  then have "signed_take_bit 63 (uint a) = uint a"
    using a by (rule signed_take_bit_int_eq_self)
  then show ?thesis by (simp add: sint_uint)
qed

lemma sint_mod_64:
  assumes "0 < sint (n :: 64 word)"
  shows "0 \<le> sint (r mod n) \<and> sint (r mod n) < sint n"
proof -
  have n: "uint n = sint n" using assms by (simp add: uint_nonneg_sint)
  have "uint (r mod n) = uint r mod uint n" by (rule uint_mod)
  moreover have "0 \<le> uint r mod uint n" "uint r mod uint n < uint n"
    using assms n by simp_all
  moreover have "sint n < 2 ^ 63" using sint_less [of n] by simp
  ultimately have u: "0 \<le> uint (r mod n)" "uint (r mod n) < sint n" "uint (r mod n) < 2 ^ 63"
    using n by simp_all
  then show ?thesis using sint_small_uint [of "r mod n"] by simp
qed


lemma prio_word:
  assumes "Len signal < 2 ^ 63"
  shows "(if (of_nat (Len signal) :: 64 word) = 0 then 1 else of_nat (Len signal))
           = (of_nat (prio_of signal) :: 64 word)"
proof (cases "Len signal = 0")
  case True
  then show ?thesis by (simp add: prio_of_def)
next
  case False
  have "sint (of_nat (Len signal) :: 64 word) = int (Len signal)"
    using assms by (rule sint_of_nat_64)
  then have "(of_nat (Len signal) :: 64 word) \<noteq> 0"
    using False by auto
  moreover have "prio_of signal = Len signal"
    using False by (simp add: prio_of_def)
  ultimately show ?thesis by simp
qed

lemma sint_prio_of:
  "Len signal < 2 ^ 63 \<Longrightarrow> sint (of_nat (prio_of signal) :: 64 word) = int (prio_of signal)"
  by (rule sint_of_nat_64) (simp add: prio_of_def)

lemma saveProgram_fields:
  "sumPrios (saveProgram pl p signal) =
     sumPrios pl + (if (of_nat (Len signal) :: 64 word) = 0 then 1 else of_nat (Len signal))"
  "accPrios (saveProgram pl p signal) = accPrios pl @ [sumPrios (saveProgram pl p signal)]"
  "progs (saveProgram pl p signal) = progs pl @ [p]"
  "ioUringProgs (saveProgram pl p signal) =
     (if io_uring_flag signal then ioUringProgs pl @ [p] else ioUringProgs pl)"
  by (simp_all add: saveProgram_def Let_def)

lemma acc_inv_append:
  assumes "acc_inv acc s" "0 < sint w" "sint s + sint w < 2 ^ 63 - 1"
  shows "acc_inv (acc @ [s + w]) (s + w)"
proof -
  have s: "0 \<le> sint s" using assms(1) by (simp add: acc_inv_def)
  have "sint (s + w) = sint s + sint w"
    using s assms(2,3) by (intro sint_add_64) simp_all
  then show ?thesis
    using assms by (auto simp: acc_inv_def sorted_append)
qed

lemma acc_inv_zero: "acc_inv [] 0"
  by (simp add: acc_inv_def)

lemma reachable_acc_inv:
  "reachable pl \<Longrightarrow> acc_inv (accPrios pl) (sumPrios pl) \<and> length (accPrios pl) = length (progs pl)"
proof (induction rule: reachable.induct)
  case reachable_zero
  show ?case by (simp add: ProgramsList_zero_def acc_inv_zero)
next
  case (reachable_save pl signal p)
  have s: "0 \<le> sint (sumPrios pl)" using reachable_save.IH by (simp add: acc_inv_def)
  have "int (Len signal) \<le> int (prio_of signal)" by (simp add: prio_of_def)
  then have "int (Len signal) < 2 ^ 63" using s reachable_save.hyps(2) by linarith
  then have len: "Len signal < 2 ^ 63" by (simp add: int_less_2p63)
  have w: "sint (of_nat (prio_of signal) :: 64 word) = int (prio_of signal)"
    using len by (rule sint_prio_of)
  have pos: "0 < sint (of_nat (prio_of signal) :: 64 word)"
    unfolding w by (simp add: prio_of_def)
  have "acc_inv (accPrios pl @ [sumPrios pl + of_nat (prio_of signal)])
          (sumPrios pl + of_nat (prio_of signal))"
    using reachable_save.IH pos reachable_save.hyps(2) w
    by (intro acc_inv_append) simp_all
  then show ?case
    using reachable_save.IH by (simp add: saveProgram_fields prio_word [OF len])
next
  case (reachable_replace pl other)
  then show ?case by (simp add: replace_def)
qed

lemma Int63n_succ:
  assumes "0 \<le> sint s" "sint s < 2 ^ 63 - 1"
  shows "Int63n r (s + 1) = Inr (r mod (s + 1))
     \<and> 0 \<le> sint (r mod (s + 1)) \<and> sint (r mod (s + 1)) \<le> sint s"
proof -
  have n: "sint (s + 1) = sint s + 1"
    using assms by (intro sint_add_64 [of s 1, simplified]) simp_all
  then have pos: "0 < sint (s + 1)" using assms by simp
  then have "\<not> (s + 1 \<le>s 0)" by (simp add: word_sle_eq)
  then have "Int63n r (s + 1) = Inr (r mod (s + 1))" by (simp add: Int63n_def)
  then show ?thesis using sint_mod_64 [OF pos, of r] n by simp
qed

lemma sle_nth_mono:
  assumes sorted: "sorted (map sint acc)"
  shows "a \<le> b \<Longrightarrow> b < length acc \<Longrightarrow> v \<le>s acc ! a \<Longrightarrow> v \<le>s acc ! b"
proof -
  assume ab: "a \<le> b" "b < length acc" "v \<le>s acc ! a"
  have "map sint acc ! a \<le> map sint acc ! b"
    using sorted ab(1) by (rule sorted_nth_mono) (simp add: ab(2))
  then have "sint (acc ! a) \<le> sint (acc ! b)" using ab by simp
  then show "v \<le>s acc ! b" using ab(3) by (simp add: word_sle_eq)
qed

lemma Search_loop_from_zero:
  assumes mono: "\<And>a b. a \<le> b \<Longrightarrow> b < n \<Longrightarrow> f a \<Longrightarrow> f b"
  shows "Search_loop f 0 n \<le> n \<and> (\<forall>h. h < Search_loop f 0 n \<longrightarrow> \<not> f h)
     \<and> (\<forall>h. Search_loop f 0 n \<le> h \<and> h < n \<longrightarrow> f h)"
proof -
  have "0 \<le> Search_loop f 0 n \<and> Search_loop f 0 n \<le> n
     \<and> (\<forall>h. 0 \<le> h \<and> h < Search_loop f 0 n \<longrightarrow> \<not> f h)
     \<and> (\<forall>h. Search_loop f 0 n \<le> h \<and> h < n \<longrightarrow> f h)"
  proof (rule Search_loop_spec)
    show "0 \<le> n" by simp
  next
    fix a b assume "a \<le> b" "b < n" "f a"
    then show "f b" by (rule mono)
  qed
  then show ?thesis by simp
qed

lemma Search_first_ge:
  assumes "acc_inv acc s" "acc \<noteq> []" "sint v \<le> sint s"
  shows "Search (length acc) (\<lambda>i. v \<le>s acc ! i) = first_ge acc v \<and> first_ge acc v < length acc"
proof -
  define f where "f = (\<lambda>i. v \<le>s acc ! i)"
  define n where "n = length acc"
  define k where "k = Search_loop f 0 n"
  have sorted: "sorted (map sint acc)" and last: "last acc = s"
    using assms(1,2) by (simp_all add: acc_inv_def)
  have mono: "\<And>a b. a \<le> b \<Longrightarrow> b < n \<Longrightarrow> f a \<Longrightarrow> f b"
    unfolding f_def n_def using sorted by (rule sle_nth_mono)
  have spec: "k \<le> n \<and> (\<forall>h. h < k \<longrightarrow> \<not> f h) \<and> (\<forall>h. k \<le> h \<and> h < n \<longrightarrow> f h)"
    unfolding k_def using mono by (rule Search_loop_from_zero)
  have n: "0 < n" using assms(2) by (simp add: n_def)
  have "acc ! (n - 1) = s"
    using assms(2) last by (simp add: last_conv_nth n_def)
  then have "f (n - 1)"
    using assms(3) by (simp add: word_sle_eq f_def)
  moreover have "\<not> f (n - 1)" if "k = n"
  proof -
    have "n - 1 < k" using that n by simp
    then show ?thesis using spec by blast
  qed
  ultimately have "k \<noteq> n" by blast
  then have k: "k < n" using spec by simp
  have "takeWhile (\<lambda>a. a <s v) acc = take k acc"
  proof (rule takeWhile_eq_take_P_nth)
    fix i assume "i < k" "i < length acc"
    then have "\<not> f i" using spec by blast
    then show "acc ! i <s v" unfolding f_def by (rule signed.not_le [THEN iffD1])
  next
    assume "k < length acc"
    then have "f k" using spec by (simp add: n_def)
    then show "\<not> acc ! k <s v" unfolding f_def by (rule signed.not_less [THEN iffD2])
  qed
  then have "first_ge acc v = k" using k by (simp add: first_ge_def n_def)
  then show ?thesis using k by (simp add: Search_def k_def f_def n_def)
qed


lemma index_nth: "i < length xs \<Longrightarrow> index xs i = Inr (Some (xs ! i))"
  by (simp add: index_def)

lemma ChooseProgram_inv:
  assumes "acc_inv (accPrios pl) (sumPrios pl)" "length (accPrios pl) = length (progs pl)"
    "progs pl \<noteq> []"
  shows "ChooseProgram pl r c k =
     Inr (Some (if c mod 100 < 50 \<and> ioUringProgs pl \<noteq> []
                then ioUringProgs pl ! (k mod length (ioUringProgs pl))
                else progs pl ! first_ge (accPrios pl) (r mod (sumPrios pl + 1))))"
proof -
  define v where "v = r mod (sumPrios pl + 1)"
  have s: "0 \<le> sint (sumPrios pl)" "sint (sumPrios pl) < 2 ^ 63 - 1"
    using assms(1) by (simp_all add: acc_inv_def)
  have draw: "Int63n r (sumPrios pl + 1) = Inr v" and v: "sint v \<le> sint (sumPrios pl)"
    using Int63n_succ [OF s, of r] by (simp_all add: v_def)
  have ne: "accPrios pl \<noteq> []" using assms(2,3) by auto
  have idx: "Search (length (accPrios pl)) (\<lambda>i. v \<le>s accPrios pl ! i) = first_ge (accPrios pl) v"
    and lt: "first_ge (accPrios pl) v < length (progs pl)"
    using Search_first_ge [OF assms(1) ne v] assms(2) by simp_all
  have w: "index (progs pl) (first_ge (accPrios pl) v) = Inr (Some (progs pl ! first_ge (accPrios pl) v))"
    using lt by (rule index_nth)
  have u: "index (ioUringProgs pl) (k mod length (ioUringProgs pl))
        = Inr (Some (ioUringProgs pl ! (k mod length (ioUringProgs pl))))"
    if "ioUringProgs pl \<noteq> []"
    using that by (intro index_nth) simp
  show ?thesis
    using assms(3) u
    by (simp add: ChooseProgram_def draw idx w Intn_def Let_def flip: v_def)
qed

lemma ChooseProgram_a_inv:
  assumes "acc_inv (accPrios_a pl) (sumPrios_a pl)" "length (accPrios_a pl) = length (progs_a pl)"
    "progs_a pl \<noteq> []"
  shows "ChooseProgram_a pl r =
     Inr (Some (progs_a pl ! first_ge (accPrios_a pl) (r mod (sumPrios_a pl + 1))))"
proof -
  define v where "v = r mod (sumPrios_a pl + 1)"
  have s: "0 \<le> sint (sumPrios_a pl)" "sint (sumPrios_a pl) < 2 ^ 63 - 1"
    using assms(1) by (simp_all add: acc_inv_def)
  have draw: "Int63n r (sumPrios_a pl + 1) = Inr v" and v: "sint v \<le> sint (sumPrios_a pl)"
    using Int63n_succ [OF s, of r] by (simp_all add: v_def)
  have ne: "accPrios_a pl \<noteq> []" using assms(2,3) by auto
  have idx: "Search (length (accPrios_a pl)) (\<lambda>i. v \<le>s accPrios_a pl ! i) = first_ge (accPrios_a pl) v"
    and lt: "first_ge (accPrios_a pl) v < length (progs_a pl)"
    using Search_first_ge [OF assms(1) ne v] assms(2) by simp_all
  have w: "index (progs_a pl) (first_ge (accPrios_a pl) v)
     = Inr (Some (progs_a pl ! first_ge (accPrios_a pl) v))"
    using lt by (rule index_nth)
  show ?thesis
    using assms(3) by (simp add: ChooseProgram_a_def draw idx w Let_def flip: v_def)
qed

lemma saveProgram_a_fields:
  "sumPrios_a (saveProgram_a pl p signal) =
     sumPrios_a pl + (if io_uring_flag signal
       then (if (of_nat (Len signal) :: 64 word) = 0 then 1 else of_nat (Len signal)) * 100000
       else (if (of_nat (Len signal) :: 64 word) = 0 then 1 else of_nat (Len signal)))"
  "accPrios_a (saveProgram_a pl p signal) = accPrios_a pl @ [sumPrios_a (saveProgram_a pl p signal)]"
  "progs_a (saveProgram_a pl p signal) = progs_a pl @ [p]"
  by (simp_all add: saveProgram_a_def Let_def)

lemma prio_word_a:
  assumes "Len signal < 2 ^ 63"
  shows "(if io_uring_flag signal
       then (if (of_nat (Len signal) :: 64 word) = 0 then 1 else of_nat (Len signal)) * 100000
       else (if (of_nat (Len signal) :: 64 word) = 0 then 1 else of_nat (Len signal)))
     = (of_nat (prio_of_a signal) :: 64 word)"
  unfolding prio_word [OF assms] by (simp add: prio_of_a_def)

lemma reachable_a_acc_inv:
  "reachable_a pl \<Longrightarrow>
     acc_inv (accPrios_a pl) (sumPrios_a pl) \<and> length (accPrios_a pl) = length (progs_a pl)"
proof (induction rule: reachable_a.induct)
  case reachable_a_zero
  show ?case by (simp add: ProgramsList_a_zero_def acc_inv_zero)
next
  case (reachable_a_save pl signal p)
  have s: "0 \<le> sint (sumPrios_a pl)" using reachable_a_save.IH by (simp add: acc_inv_def)
  have "Len signal \<le> prio_of signal" "0 < prio_of signal"
    by (simp_all add: prio_of_def)
  moreover have "prio_of signal \<le> prio_of_a signal"
    by (simp add: prio_of_a_def)
  ultimately have le: "int (Len signal) \<le> int (prio_of_a signal)" "0 < int (prio_of_a signal)"
    by linarith+
  then have b: "int (prio_of_a signal) < 2 ^ 63" "int (Len signal) < 2 ^ 63"
    using s reachable_a_save.hyps(2) by linarith+
  then have len: "Len signal < 2 ^ 63" "prio_of_a signal < 2 ^ 63"
    by (simp_all add: int_less_2p63)
  have w: "sint (of_nat (prio_of_a signal) :: 64 word) = int (prio_of_a signal)"
    using len(2) by (rule sint_of_nat_64)
  have pos: "0 < sint (of_nat (prio_of_a signal) :: 64 word)"
    unfolding w by (rule le(2))
  have "acc_inv (accPrios_a pl @ [sumPrios_a pl + of_nat (prio_of_a signal)])
          (sumPrios_a pl + of_nat (prio_of_a signal))"
    using reachable_a_save.IH pos reachable_a_save.hyps(2) w
    by (intro acc_inv_append) simp_all
  then show ?case
    using reachable_a_save.IH
    by (simp only: saveProgram_a_fields prio_word_a [OF len(1)]) simp
next
  case (reachable_a_replace pl other)
  then show ?case by (simp add: replace_a_def)
qed

lemma sint_saveProgram:
  assumes "0 \<le> sint (sumPrios pl)" "sint (sumPrios pl) + int (prio_of signal) < 2 ^ 63"
  shows "sint (sumPrios (saveProgram pl p signal)) = sint (sumPrios pl) + int (prio_of signal)"
proof -
  have "int (Len signal) \<le> int (prio_of signal)" by (simp add: prio_of_def)
  then have "int (Len signal) < 2 ^ 63" using assms by linarith
  then have len: "Len signal < 2 ^ 63" by (simp add: int_less_2p63)
  have w: "sint (of_nat (prio_of signal) :: 64 word) = int (prio_of signal)"
    using len by (rule sint_prio_of)
  have "sint (sumPrios pl + of_nat (prio_of signal)) = sint (sumPrios pl) + sint (of_nat (prio_of signal) :: 64 word)"
    using assms w by (intro sint_add_64) simp_all
  then show ?thesis by (simp add: saveProgram_fields prio_word [OF len] w)
qed

lemma admit_all_reachable:
  "total_prio calls < 2 ^ 63 - 1 \<Longrightarrow>
     reachable (admit_all ProgramsList_zero calls)
     \<and> sint (sumPrios (admit_all ProgramsList_zero calls)) = total_prio calls"
proof (induction calls rule: rev_induct)
  case Nil
  have "sumPrios (ProgramsList_zero :: 'a ProgramsList) = 0"
    by (simp add: ProgramsList_zero_def)
  then show ?case by (simp add: admit_all_def total_prio_def reachable_zero)
next
  case (snoc x calls)
  obtain p signal where x: "x = (p, signal)" by (cases x)
  have t: "total_prio (calls @ [x]) = total_prio calls + int (prio_of signal)"
    by (simp add: total_prio_def x)
  then have "total_prio calls < 2 ^ 63 - 1" using snoc.prems by linarith
  then have IH: "reachable (admit_all ProgramsList_zero calls)"
    "sint (sumPrios (admit_all ProgramsList_zero calls)) = total_prio calls"
    using snoc.IH by simp_all
  have step: "admit_all ProgramsList_zero (calls @ [x])
      = saveProgram (admit_all ProgramsList_zero calls) p signal"
    by (simp add: admit_all_def x)
  have b: "sint (sumPrios (admit_all ProgramsList_zero calls)) + int (prio_of signal) < 2 ^ 63 - 1"
    using snoc.prems t IH(2) by simp
  have nn: "0 \<le> sint (sumPrios (admit_all ProgramsList_zero calls))"
    using reachable_acc_inv [OF IH(1)] by (simp add: acc_inv_def)
  have "reachable (admit_all ProgramsList_zero (calls @ [x]))"
    unfolding step using IH(1) b by (rule reachable_save)
  moreover have "sint (sumPrios (admit_all ProgramsList_zero (calls @ [x]))) = total_prio (calls @ [x])"
    unfolding step t using sint_saveProgram [OF nn, of signal p] b IH(2) by simp
  ultimately show ?case by blast
qed


lemma sint_saveProgram_a:
  assumes "0 \<le> sint (sumPrios_a pl)" "sint (sumPrios_a pl) + int (prio_of_a signal) < 2 ^ 63"
  shows "sint (sumPrios_a (saveProgram_a pl p signal)) = sint (sumPrios_a pl) + int (prio_of_a signal)"
proof -
  have "Len signal \<le> prio_of signal" by (simp add: prio_of_def)
  moreover have "prio_of signal \<le> prio_of_a signal" by (simp add: prio_of_a_def)
  ultimately have "int (Len signal) \<le> int (prio_of_a signal)" by linarith
  then have "int (Len signal) < 2 ^ 63" "int (prio_of_a signal) < 2 ^ 63" using assms by linarith+
  then have len: "Len signal < 2 ^ 63" "prio_of_a signal < 2 ^ 63" by (simp_all add: int_less_2p63)
  have w: "sint (of_nat (prio_of_a signal) :: 64 word) = int (prio_of_a signal)"
    using len(2) by (rule sint_of_nat_64)
  have "sint (sumPrios_a pl + of_nat (prio_of_a signal))
      = sint (sumPrios_a pl) + sint (of_nat (prio_of_a signal) :: 64 word)"
    using assms w by (intro sint_add_64) simp_all
  then show ?thesis by (simp only: saveProgram_a_fields prio_word_a [OF len(1)] w)
qed

lemma admit_all_a_reachable:
  "total_prio_a calls < 2 ^ 63 - 1 \<Longrightarrow>
     reachable_a (admit_all_a ProgramsList_a_zero calls)
     \<and> sint (sumPrios_a (admit_all_a ProgramsList_a_zero calls)) = total_prio_a calls"
proof (induction calls rule: rev_induct)
  case Nil
  have "sumPrios_a (ProgramsList_a_zero :: 'a ProgramsList_a) = 0"
    by (simp add: ProgramsList_a_zero_def)
  then show ?case by (simp add: admit_all_a_def total_prio_a_def reachable_a_zero)
next
  case (snoc x calls)
  obtain p signal where x: "x = (p, signal)" by (cases x)
  have t: "total_prio_a (calls @ [x]) = total_prio_a calls + int (prio_of_a signal)"
    by (simp add: total_prio_a_def x)
  have "0 < prio_of signal" by (simp add: prio_of_def)
  then have "0 < int (prio_of_a signal)" by (simp add: prio_of_a_def)
  then have "total_prio_a calls < 2 ^ 63 - 1" using snoc.prems t by linarith
  then have IH: "reachable_a (admit_all_a ProgramsList_a_zero calls)"
    "sint (sumPrios_a (admit_all_a ProgramsList_a_zero calls)) = total_prio_a calls"
    using snoc.IH by simp_all
  have step: "admit_all_a ProgramsList_a_zero (calls @ [x])
      = saveProgram_a (admit_all_a ProgramsList_a_zero calls) p signal"
    by (simp add: admit_all_a_def x)
  have b: "sint (sumPrios_a (admit_all_a ProgramsList_a_zero calls)) + int (prio_of_a signal) < 2 ^ 63 - 1"
    using snoc.prems t IH(2) by simp
  have nn: "0 \<le> sint (sumPrios_a (admit_all_a ProgramsList_a_zero calls))"
    using reachable_a_acc_inv [OF IH(1)] by (simp add: acc_inv_def)
  have "reachable_a (admit_all_a ProgramsList_a_zero (calls @ [x]))"
    unfolding step using IH(1) b by (rule reachable_a_save)
  moreover have "sint (sumPrios_a (admit_all_a ProgramsList_a_zero (calls @ [x]))) = total_prio_a (calls @ [x])"
    unfolding step t using sint_saveProgram_a [OF nn, of signal p] b IH(2) by simp
  ultimately show ?case by blast
qed

text \<open>
  Claim C8. After any list of \<open>saveProgram\<close> calls on the zero scheduler whose weights
  sum to less than \<open>2 ^ 63 - 1\<close> (so that \<open>int64\<close> does not wrap around),
  \<open>accPrios\<close> is as long as \<open>progs\<close>, \<open>accPrios\<close> is non-decreasing, and the last
  element of \<open>accPrios\<close> is \<open>sumPrios\<close>; with no call at all \<open>accPrios\<close> is empty and
  \<open>sumPrios\<close> is 0. The same holds in the first revision, whose weights include the
  factor 100000.
\<close>

theorem accPrios_invariant:
  "(total_prio calls < 2 ^ 63 - 1 \<longrightarrow>
      length (accPrios (admit_all ProgramsList_zero calls))
        = length (progs (admit_all ProgramsList_zero calls))
      \<and> sorted (map sint (accPrios (admit_all ProgramsList_zero calls)))
      \<and> (if calls = [] then sumPrios (admit_all ProgramsList_zero calls) = 0
          else last (accPrios (admit_all ProgramsList_zero calls))
                 = sumPrios (admit_all ProgramsList_zero calls)))
   \<and> (total_prio_a calls < 2 ^ 63 - 1 \<longrightarrow>
      length (accPrios_a (admit_all_a ProgramsList_a_zero calls))
        = length (progs_a (admit_all_a ProgramsList_a_zero calls))
      \<and> sorted (map sint (accPrios_a (admit_all_a ProgramsList_a_zero calls)))
      \<and> (if calls = [] then sumPrios_a (admit_all_a ProgramsList_a_zero calls) = 0
          else last (accPrios_a (admit_all_a ProgramsList_a_zero calls))
                 = sumPrios_a (admit_all_a ProgramsList_a_zero calls)))"
proof (intro conjI impI)
  assume "total_prio calls < 2 ^ 63 - 1"
  then have r: "reachable (admit_all ProgramsList_zero calls)"
    using admit_all_reachable by blast
  note inv = reachable_acc_inv [OF r]
  show "length (accPrios (admit_all ProgramsList_zero calls))
        = length (progs (admit_all ProgramsList_zero calls))"
    using inv by simp
  show "sorted (map sint (accPrios (admit_all ProgramsList_zero calls)))"
    using inv by (simp add: acc_inv_def)
  have "length (progs (admit_all ProgramsList_zero calls)) = length calls"
    by (induction calls rule: rev_induct)
      (simp_all add: admit_all_def ProgramsList_zero_def saveProgram_fields split_beta)
  then have "(accPrios (admit_all ProgramsList_zero calls) = []) = (calls = [])"
    using inv by (metis length_0_conv)
  then show "if calls = [] then sumPrios (admit_all ProgramsList_zero calls) = 0
          else last (accPrios (admit_all ProgramsList_zero calls))
                 = sumPrios (admit_all ProgramsList_zero calls)"
    using inv by (cases "calls = []") (simp_all add: acc_inv_def)
next
  assume "total_prio_a calls < 2 ^ 63 - 1"
  then have r: "reachable_a (admit_all_a ProgramsList_a_zero calls)"
    using admit_all_a_reachable by blast
  note inv = reachable_a_acc_inv [OF r]
  show "length (accPrios_a (admit_all_a ProgramsList_a_zero calls))
        = length (progs_a (admit_all_a ProgramsList_a_zero calls))"
    using inv by simp
  show "sorted (map sint (accPrios_a (admit_all_a ProgramsList_a_zero calls)))"
    using inv by (simp add: acc_inv_def)
  have "length (progs_a (admit_all_a ProgramsList_a_zero calls)) = length calls"
    by (induction calls rule: rev_induct)
      (simp_all add: admit_all_a_def ProgramsList_a_zero_def saveProgram_a_fields split_beta)
  then have "(accPrios_a (admit_all_a ProgramsList_a_zero calls) = []) = (calls = [])"
    using inv by (metis length_0_conv)
  then show "if calls = [] then sumPrios_a (admit_all_a ProgramsList_a_zero calls) = 0
          else last (accPrios_a (admit_all_a ProgramsList_a_zero calls))
                 = sumPrios_a (admit_all_a ProgramsList_a_zero calls)"
    using inv by (cases "calls = []") (simp_all add: acc_inv_def)
qed

subsection \<open>Weights, replacement and choice\<close>

text \<open>Two concrete signals: one event inside the io_uring region, three outside.\<close>

lemma Len_1: "Len [0xffffffff81ba06ed \<mapsto> 0] = 1"
  by (simp add: Len_def)

lemma Len_3: "Len [5 \<mapsto> 0, 6 \<mapsto> 0, 7 \<mapsto> 0] = 3"
  by (simp add: Len_def)

lemma flag_1: "io_uring_flag [0xffffffff81ba06ed \<mapsto> 0]"
  by (simp add: io_uring_flag_def)

lemma flag_3: "\<not> io_uring_flag [5 \<mapsto> 0, 6 \<mapsto> 0, 7 \<mapsto> 0]"
  by (simp add: io_uring_flag_def)

text \<open>
  Claim C1, as amended. For a signal whose size fits an \<open>int\<close>, \<open>saveProgram\<close> appends
  the program to \<open>progs\<close> and the new \<open>sumPrios\<close> to \<open>accPrios\<close>. In the revision
  with the protected subset \<open>sumPrios\<close> grows by the weight \<open>w = max(1, |S|)\<close>, whatever
  the events of the signal are. In the first revision it grows by \<open>w\<close> when no event of
  the signal lies in the io_uring region, and by \<open>w * 100000\<close> when one does.
\<close>

theorem saveProgram_weight:
  "Len signal < 2 ^ 63 \<Longrightarrow>
     (let w = (of_nat (max 1 (Len signal)) :: 64 word)
      in sint w = int (max 1 (Len signal))
       \<and> sumPrios (saveProgram pl p signal) = sumPrios pl + w
       \<and> accPrios (saveProgram pl p signal) = accPrios pl @ [sumPrios pl + w]
       \<and> progs (saveProgram pl p signal) = progs pl @ [p]
       \<and> sumPrios_a (saveProgram_a pla p signal)
           = sumPrios_a pla + (if io_uring_flag signal then w * 100000 else w)
       \<and> accPrios_a (saveProgram_a pla p signal)
           = accPrios_a pla @ [sumPrios_a pla + (if io_uring_flag signal then w * 100000 else w)]
       \<and> progs_a (saveProgram_a pla p signal) = progs_a pla @ [p])"
proof -
  assume len: "Len signal < 2 ^ 63"
  have w: "(if (of_nat (Len signal) :: 64 word) = 0 then 1 else of_nat (Len signal))
           = (of_nat (max 1 (Len signal)) :: 64 word)"
    using prio_word [OF len] by (simp add: prio_of_def)
  have "sint (of_nat (max 1 (Len signal)) :: 64 word) = int (max 1 (Len signal))"
    using sint_prio_of [OF len] by (simp add: prio_of_def)
  then show ?thesis
    unfolding Let_def saveProgram_fields saveProgram_a_fields w by simp
qed

theorem saveProgram_weight_witness:
  "Len [0xffffffff81ba06ed \<mapsto> 0] < 2 ^ 63
   \<and> sumPrios (saveProgram ProgramsList_zero (7 :: nat) [0xffffffff81ba06ed \<mapsto> 0]) = 1
   \<and> accPrios (saveProgram ProgramsList_zero (7 :: nat) [0xffffffff81ba06ed \<mapsto> 0]) = [1]
   \<and> progs (saveProgram ProgramsList_zero (7 :: nat) [0xffffffff81ba06ed \<mapsto> 0]) = [7]
   \<and> sumPrios_a (saveProgram_a ProgramsList_a_zero (7 :: nat) [0xffffffff81ba06ed \<mapsto> 0]) = 100000"
  using saveProgram_weight [of "[0xffffffff81ba06ed \<mapsto> 0]" ProgramsList_zero "7 :: nat" ProgramsList_a_zero]
  by (simp add: Len_1 flag_1 ProgramsList_zero_def ProgramsList_a_zero_def)

text \<open>
  In the first revision, a signal of one event inside the io_uring region gives the weight
  100000, where \<open>max(1, |S|)\<close> is 1.
\<close>

theorem saveProgram_a_weight_counterexample:
  "max 1 (Len [0xffffffff81ba06ed \<mapsto> 0]) = 1
   \<and> sumPrios_a (saveProgram_a ProgramsList_a_zero (7 :: nat) [0xffffffff81ba06ed \<mapsto> 0]) = 100000
   \<and> accPrios_a (saveProgram_a ProgramsList_a_zero (7 :: nat) [0xffffffff81ba06ed \<mapsto> 0]) = [100000]"
  by (simp add: saveProgram_a_def Len_1 flag_1 ProgramsList_a_zero_def)

text \<open>
  Claim C6, as amended. \<open>replace\<close> takes \<open>progs\<close>, \<open>accPrios\<close> and \<open>sumPrios\<close> from
  the other list and leaves \<open>ioUringProgs\<close> as it was before the call. In the first
  revision, which has no protected subset, the state after \<open>replace\<close> is the other list.
\<close>

theorem replace_fields:
  "progs (replace pl other) = progs other
   \<and> accPrios (replace pl other) = accPrios other
   \<and> sumPrios (replace pl other) = sumPrios other
   \<and> ioUringProgs (replace pl other) = ioUringProgs pl
   \<and> replace_a pla othera = othera"
  by (simp add: replace_def replace_a_def)

text \<open>
  After \<open>replace\<close> the protected subset is not that of the replacement state: here it
  still holds program 1, and the replacement's holds program 2.
\<close>

theorem replace_keeps_ioUringProgs:
  "ioUringProgs (replace (saveProgram ProgramsList_zero (1 :: nat) [0xffffffff81ba06ed \<mapsto> 0])
                         (saveProgram ProgramsList_zero (2 :: nat) [0xffffffff81ba06ed \<mapsto> 0])) = [1]
   \<and> ioUringProgs (saveProgram ProgramsList_zero (2 :: nat) [0xffffffff81ba06ed \<mapsto> 0]) = [2]"
  by (simp add: replace_def saveProgram_fields flag_1 ProgramsList_zero_def)

text \<open>
  Claim C2. In every state of a run with a non-empty \<open>progs\<close>, \<open>ChooseProgram\<close> returns
  a program. When the draw of \<open>rand.Intn(100)\<close> is below 50 (50 of its 100 outcomes) and
  \<open>ioUringProgs\<close> is not empty, it is the program of \<open>ioUringProgs\<close> at the index drawn
  by \<open>rand.Intn(len(ioUringProgs))\<close>. Otherwise it is the program of \<open>progs\<close> at the
  first index whose cumulative value is at least the draw of \<open>r.Int63n(sumPrios + 1)\<close>,
  a number of \<open>[0, sumPrios]\<close>; that index is inside \<open>progs\<close>, and it is the one the
  binary search finds. The first revision always returns the weighted choice.
\<close>

theorem ChooseProgram_sampling:
  "(reachable pl \<and> progs pl \<noteq> [] \<longrightarrow>
      ChooseProgram pl r c k =
        Inr (Some (if c mod 100 < 50 \<and> ioUringProgs pl \<noteq> []
                   then ioUringProgs pl ! (k mod length (ioUringProgs pl))
                   else progs pl ! first_ge (accPrios pl) (r mod (sumPrios pl + 1))))
      \<and> 0 \<le>s r mod (sumPrios pl + 1) \<and> r mod (sumPrios pl + 1) \<le>s sumPrios pl
      \<and> first_ge (accPrios pl) (r mod (sumPrios pl + 1)) < length (progs pl))
   \<and> (reachable_a pla \<and> progs_a pla \<noteq> [] \<longrightarrow>
      ChooseProgram_a pla r =
        Inr (Some (progs_a pla ! first_ge (accPrios_a pla) (r mod (sumPrios_a pla + 1))))
      \<and> 0 \<le>s r mod (sumPrios_a pla + 1) \<and> r mod (sumPrios_a pla + 1) \<le>s sumPrios_a pla
      \<and> first_ge (accPrios_a pla) (r mod (sumPrios_a pla + 1)) < length (progs_a pla))"
proof (intro conjI impI; elim conjE)
  assume r: "reachable pl" and ne: "progs pl \<noteq> []"
  note inv = reachable_acc_inv [OF r]
  have i: "acc_inv (accPrios pl) (sumPrios pl)" and l: "length (accPrios pl) = length (progs pl)"
    using inv by simp_all
  have s: "0 \<le> sint (sumPrios pl)" "sint (sumPrios pl) < 2 ^ 63 - 1"
    using i by (simp_all add: acc_inv_def)
  note d = Int63n_succ [OF s, of r]
  show "ChooseProgram pl r c k =
        Inr (Some (if c mod 100 < 50 \<and> ioUringProgs pl \<noteq> []
                   then ioUringProgs pl ! (k mod length (ioUringProgs pl))
                   else progs pl ! first_ge (accPrios pl) (r mod (sumPrios pl + 1))))"
    using i l ne by (rule ChooseProgram_inv)
  show "0 \<le>s r mod (sumPrios pl + 1)" using d by (simp add: word_sle_eq)
  show "r mod (sumPrios pl + 1) \<le>s sumPrios pl" using d by (simp add: word_sle_eq)
  have "accPrios pl \<noteq> []" using l ne by auto
  then show "first_ge (accPrios pl) (r mod (sumPrios pl + 1)) < length (progs pl)"
    using Search_first_ge [OF i, of "r mod (sumPrios pl + 1)"] d l by simp
next
  assume r: "reachable_a pla" and ne: "progs_a pla \<noteq> []"
  note inv = reachable_a_acc_inv [OF r]
  have i: "acc_inv (accPrios_a pla) (sumPrios_a pla)"
    and l: "length (accPrios_a pla) = length (progs_a pla)"
    using inv by simp_all
  have s: "0 \<le> sint (sumPrios_a pla)" "sint (sumPrios_a pla) < 2 ^ 63 - 1"
    using i by (simp_all add: acc_inv_def)
  note d = Int63n_succ [OF s, of r]
  show "ChooseProgram_a pla r =
        Inr (Some (progs_a pla ! first_ge (accPrios_a pla) (r mod (sumPrios_a pla + 1))))"
    using i l ne by (rule ChooseProgram_a_inv)
  show "0 \<le>s r mod (sumPrios_a pla + 1)" using d by (simp add: word_sle_eq)
  show "r mod (sumPrios_a pla + 1) \<le>s sumPrios_a pla" using d by (simp add: word_sle_eq)
  have "accPrios_a pla \<noteq> []" using l ne by auto
  then show "first_ge (accPrios_a pla) (r mod (sumPrios_a pla + 1)) < length (progs_a pla)"
    using Search_first_ge [OF i, of "r mod (sumPrios_a pla + 1)"] d l by simp
qed

text \<open>
  Claim C9. In every state of a run and for every draw, \<open>ChooseProgram\<close> returns without
  a panic: no index is out of range and no \<open>Intn\<close> is called on an empty
  \<open>ioUringProgs\<close>. It returns \<open>nil\<close> exactly when \<open>progs\<close> is empty. The same holds in
  the first revision.
\<close>

theorem ChooseProgram_total:
  "(reachable pl \<longrightarrow>
      (\<exists>res. ChooseProgram pl r c k = Inr res)
      \<and> (ChooseProgram pl r c k = Inr None) = (progs pl = []))
   \<and> (reachable_a pla \<longrightarrow>
      (\<exists>res. ChooseProgram_a pla r = Inr res)
      \<and> (ChooseProgram_a pla r = Inr None) = (progs_a pla = []))"
proof (intro conjI impI)
  assume r: "reachable pl"
  note inv = reachable_acc_inv [OF r]
  have e: "ChooseProgram pl r c k = Inr None" if "progs pl = []"
    using that by (simp add: ChooseProgram_def)
  have n: "\<exists>x. ChooseProgram pl r c k = Inr (Some x)" if "progs pl \<noteq> []"
    using ChooseProgram_inv [of pl r c k] inv that by simp
  show "\<exists>res. ChooseProgram pl r c k = Inr res" using e n by blast
  show "(ChooseProgram pl r c k = Inr None) = (progs pl = [])"
  proof (cases "progs pl = []")
    case True
    then show ?thesis using e by simp
  next
    case False
    then show ?thesis using n by auto
  qed
next
  assume r: "reachable_a pla"
  note inv = reachable_a_acc_inv [OF r]
  have e: "ChooseProgram_a pla r = Inr None" if "progs_a pla = []"
    using that by (simp add: ChooseProgram_a_def)
  have n: "\<exists>x. ChooseProgram_a pla r = Inr (Some x)" if "progs_a pla \<noteq> []"
    using ChooseProgram_a_inv [of pla r] inv that by simp
  show "\<exists>res. ChooseProgram_a pla r = Inr res" using e n by blast
  show "(ChooseProgram_a pla r = Inr None) = (progs_a pla = [])"
  proof (cases "progs_a pla = []")
    case True
    then show ?thesis using e by simp
  next
    case False
    then show ?thesis using n by auto
  qed
qed

text \<open>
  Claim C10. With an empty \<open>progs\<close>, \<open>ChooseProgram\<close> returns \<open>nil\<close> whatever
  \<open>ioUringProgs\<close> holds. Such a state with a non-empty \<open>ioUringProgs\<close> is a state of a
  run: save a program whose signal reaches the io_uring region, then \<open>replace\<close> by the
  zero list, which leaves \<open>ioUringProgs\<close> in place.
\<close>

theorem ChooseProgram_empty_progs:
  "(progs (pl :: 'p ProgramsList) = [] \<longrightarrow> ChooseProgram pl r c k = Inr None)
   \<and> reachable (replace (saveProgram ProgramsList_zero (p :: 'p) [0xffffffff81ba06ed \<mapsto> t]) ProgramsList_zero)
   \<and> progs (replace (saveProgram ProgramsList_zero p [0xffffffff81ba06ed \<mapsto> t]) ProgramsList_zero) = []
   \<and> ioUringProgs (replace (saveProgram ProgramsList_zero p [0xffffffff81ba06ed \<mapsto> t]) ProgramsList_zero) = [p]
   \<and> ChooseProgram (replace (saveProgram ProgramsList_zero p [0xffffffff81ba06ed \<mapsto> t]) ProgramsList_zero) r c k
        = Inr None"
proof -
  let ?S = "[0xffffffff81ba06ed \<mapsto> t] :: Signal"
  let ?q = "replace (saveProgram ProgramsList_zero p ?S) ProgramsList_zero"
  have e: "ChooseProgram pl r c k = Inr None" if "progs pl = []" for pl :: "'p ProgramsList"
    using that by (simp add: ChooseProgram_def)
  have "reachable (saveProgram ProgramsList_zero p ?S)"
    by (rule reachable_save [OF reachable_zero])
      (simp add: ProgramsList_zero_def prio_of_def Len_def)
  then have 1: "reachable ?q" using reachable_zero by (rule reachable_replace)
  have 2: "progs ?q = []" by (simp add: replace_def ProgramsList_zero_def)
  have 3: "ioUringProgs ?q = [p]"
    by (simp add: replace_def saveProgram_fields io_uring_flag_def ProgramsList_zero_def)
  from e [of pl] e [OF 2] 1 2 3 show ?thesis by blast
qed

subsection \<open>A concrete run\<close>

text \<open>
  Program 11 with a signal of three events outside the io_uring region, then program 12
  with a signal of one event inside it: the weights are 3 and 1 (3 and 100000 in the first
  revision).
\<close>

lemma example_state:
  "saveProgram (saveProgram ProgramsList_zero (11 :: nat) [5 \<mapsto> 0, 6 \<mapsto> 0, 7 \<mapsto> 0])
       12 [0xffffffff81ba06ed \<mapsto> 0]
     = \<lparr>progs = [11, 12], ioUringProgs = [12], sumPrios = 4, accPrios = [3, 4]\<rparr>"
  by (simp add: saveProgram_def ProgramsList_zero_def Len_1 Len_3 flag_1 flag_3)

lemma example_state_a:
  "saveProgram_a (saveProgram_a ProgramsList_a_zero (11 :: nat) [5 \<mapsto> 0, 6 \<mapsto> 0, 7 \<mapsto> 0])
       12 [0xffffffff81ba06ed \<mapsto> 0]
     = \<lparr>progs_a = [11, 12], sumPrios_a = 100003, accPrios_a = [3, 100003]\<rparr>"
  by (simp add: saveProgram_a_def ProgramsList_a_zero_def Len_1 Len_3 flag_1 flag_3)

lemma example_reachable:
  "reachable \<lparr>progs = [11, 12 :: nat], ioUringProgs = [12], sumPrios = 4, accPrios = [3, 4]\<rparr>"
proof -
  have "reachable (saveProgram ProgramsList_zero (11 :: nat) [5 \<mapsto> 0, 6 \<mapsto> 0, 7 \<mapsto> 0])"
    by (rule reachable_save [OF reachable_zero])
      (simp add: ProgramsList_zero_def prio_of_def Len_3)
  then have "reachable (saveProgram (saveProgram ProgramsList_zero (11 :: nat)
      [5 \<mapsto> 0, 6 \<mapsto> 0, 7 \<mapsto> 0]) 12 [0xffffffff81ba06ed \<mapsto> 0])"
    by (rule reachable_save)
      (simp add: saveProgram_fields ProgramsList_zero_def prio_of_def Len_3 Len_1)
  then show ?thesis by (simp only: example_state)
qed

lemma example_reachable_a:
  "reachable_a \<lparr>progs_a = [11, 12 :: nat], sumPrios_a = 100003, accPrios_a = [3, 100003]\<rparr>"
proof -
  have "reachable_a (saveProgram_a ProgramsList_a_zero (11 :: nat) [5 \<mapsto> 0, 6 \<mapsto> 0, 7 \<mapsto> 0])"
    by (rule reachable_a_save [OF reachable_a_zero])
      (simp add: ProgramsList_a_zero_def prio_of_a_def prio_of_def Len_3 flag_3)
  then have "reachable_a (saveProgram_a (saveProgram_a ProgramsList_a_zero (11 :: nat)
      [5 \<mapsto> 0, 6 \<mapsto> 0, 7 \<mapsto> 0]) 12 [0xffffffff81ba06ed \<mapsto> 0])"
    by (rule reachable_a_save)
      (simp add: saveProgram_a_fields ProgramsList_a_zero_def prio_of_a_def prio_of_def
        Len_3 Len_1 flag_1 flag_3)
  then show ?thesis by (simp only: example_state_a)
qed

theorem ChooseProgram_sampling_witness:
  "reachable \<lparr>progs = [11, 12 :: nat], ioUringProgs = [12], sumPrios = 4, accPrios = [3, 4]\<rparr>
   \<and> ChooseProgram \<lparr>progs = [11, 12 :: nat], ioUringProgs = [12], sumPrios = 4, accPrios = [3, 4]\<rparr>
        2 70 0 = Inr (Some 11)
   \<and> ChooseProgram \<lparr>progs = [11, 12 :: nat], ioUringProgs = [12], sumPrios = 4, accPrios = [3, 4]\<rparr>
        4 70 0 = Inr (Some 12)
   \<and> ChooseProgram \<lparr>progs = [11, 12 :: nat], ioUringProgs = [12], sumPrios = 4, accPrios = [3, 4]\<rparr>
        2 10 0 = Inr (Some 12)
   \<and> reachable_a \<lparr>progs_a = [11, 12 :: nat], sumPrios_a = 100003, accPrios_a = [3, 100003]\<rparr>
   \<and> ChooseProgram_a \<lparr>progs_a = [11, 12 :: nat], sumPrios_a = 100003, accPrios_a = [3, 100003]\<rparr>
        2 = Inr (Some 11)"
proof -
  let ?pl = "\<lparr>progs = [11, 12 :: nat], ioUringProgs = [12], sumPrios = 4, accPrios = [3, 4]\<rparr>"
  let ?pla = "\<lparr>progs_a = [11, 12 :: nat], sumPrios_a = 100003, accPrios_a = [3, 100003]\<rparr>"
  show ?thesis
    using example_reachable example_reachable_a
      ChooseProgram_sampling [of ?pl 2 70 0 ?pla]
      ChooseProgram_sampling [of ?pl 4 70 0 ?pla]
      ChooseProgram_sampling [of ?pl 2 10 0 ?pla]
    by (simp add: first_ge_def word_sless_alt)
qed

theorem ChooseProgram_total_witness:
  "reachable \<lparr>progs = [11, 12 :: nat], ioUringProgs = [12], sumPrios = 4, accPrios = [3, 4]\<rparr>
   \<and> (\<exists>res. ChooseProgram \<lparr>progs = [11, 12 :: nat], ioUringProgs = [12], sumPrios = 4,
          accPrios = [3, 4]\<rparr> 2 70 0 = Inr res)
   \<and> ChooseProgram \<lparr>progs = [11, 12 :: nat], ioUringProgs = [12], sumPrios = 4, accPrios = [3, 4]\<rparr>
        2 70 0 \<noteq> Inr None
   \<and> reachable_a \<lparr>progs_a = [11, 12 :: nat], sumPrios_a = 100003, accPrios_a = [3, 100003]\<rparr>
   \<and> (\<exists>res. ChooseProgram_a \<lparr>progs_a = [11, 12 :: nat], sumPrios_a = 100003,
          accPrios_a = [3, 100003]\<rparr> 2 = Inr res)
   \<and> ChooseProgram_a \<lparr>progs_a = [11, 12 :: nat], sumPrios_a = 100003, accPrios_a = [3, 100003]\<rparr>
        2 \<noteq> Inr None"
  using example_reachable example_reachable_a
    ChooseProgram_total [of "\<lparr>progs = [11, 12 :: nat], ioUringProgs = [12], sumPrios = 4,
          accPrios = [3, 4]\<rparr>" 2 70 0
       "\<lparr>progs_a = [11, 12 :: nat], sumPrios_a = 100003, accPrios_a = [3, 100003]\<rparr>"]
  by simp

theorem accPrios_invariant_witness:
  "total_prio [(11 :: nat, [5 \<mapsto> 0, 6 \<mapsto> 0, 7 \<mapsto> 0]), (12, [0xffffffff81ba06ed \<mapsto> 0])] < 2 ^ 63 - 1
   \<and> total_prio_a [(11 :: nat, [5 \<mapsto> 0, 6 \<mapsto> 0, 7 \<mapsto> 0]), (12, [0xffffffff81ba06ed \<mapsto> 0])] < 2 ^ 63 - 1
   \<and> accPrios (admit_all ProgramsList_zero
         [(11 :: nat, [5 \<mapsto> 0, 6 \<mapsto> 0, 7 \<mapsto> 0]), (12, [0xffffffff81ba06ed \<mapsto> 0])]) = [3, 4]
   \<and> sumPrios (admit_all ProgramsList_zero
         [(11 :: nat, [5 \<mapsto> 0, 6 \<mapsto> 0, 7 \<mapsto> 0]), (12, [0xffffffff81ba06ed \<mapsto> 0])]) = 4
   \<and> accPrios_a (admit_all_a ProgramsList_a_zero
         [(11 :: nat, [5 \<mapsto> 0, 6 \<mapsto> 0, 7 \<mapsto> 0]), (12, [0xffffffff81ba06ed \<mapsto> 0])]) = [3, 100003]
   \<and> sumPrios_a (admit_all_a ProgramsList_a_zero
         [(11 :: nat, [5 \<mapsto> 0, 6 \<mapsto> 0, 7 \<mapsto> 0]), (12, [0xffffffff81ba06ed \<mapsto> 0])]) = 100003"
  using accPrios_invariant
    [of "[(11 :: nat, [5 \<mapsto> 0, 6 \<mapsto> 0, 7 \<mapsto> 0]), (12, [0xffffffff81ba06ed \<mapsto> 0])]"]
  by (simp add: total_prio_def total_prio_a_def prio_of_def prio_of_a_def Len_1 Len_3 flag_1 flag_3
      admit_all_def admit_all_a_def example_state example_state_a)

theorem ChooseProgram_empty_progs_witness:
  "progs (replace (saveProgram ProgramsList_zero (11 :: nat) [0xffffffff81ba06ed \<mapsto> 0])
            ProgramsList_zero) = []
   \<and> ioUringProgs (replace (saveProgram ProgramsList_zero (11 :: nat) [0xffffffff81ba06ed \<mapsto> 0])
            ProgramsList_zero) = [11]
   \<and> ChooseProgram (replace (saveProgram ProgramsList_zero (11 :: nat) [0xffffffff81ba06ed \<mapsto> 0])
            ProgramsList_zero) 2 10 0 = Inr None"
  using ChooseProgram_empty_progs
    [of "replace (saveProgram ProgramsList_zero (11 :: nat) [0xffffffff81ba06ed \<mapsto> 0])
            ProgramsList_zero" 2 10 0 11 0]
  by simp

end
